theory Spec2Isabelle
  imports Complex_Main "HOL-Library.Word" "HOL-Library.Multiset"
begin

section \<open>Bytes\<close>

text \<open>
  The controller talks to the motion board in bytes: the elements of a Node \<open>Buffer\<close>,
  integers from 0 to 255. A byte is an 8-bit word here; \<open>unat\<close> and \<open>uint\<close> read
  it back as the JavaScript number it is.
\<close>

type_synonym byte = "8 word"

section \<open>Frame codec\<close>

text \<open>
  \<open>writeToSerialPort\<close> (mainController.js) hands every command to
  \<open>cobs.encode(Buffer.from(data), true)\<close>. The package \<open>cobs\<close> and the \<open>Parser\<close>
  that decodes the inbound stream are not among the sources, so the codec is modelled
  from the specification.
\<close>

datatype frame_error = Malformed

text \<open>
  Modelled from the spec: the stuffing transform of \<open>cobs.encode\<close>, which is missing
  from the sources. The specification asks for a self-synchronising byte-stuffing
  scheme in which the delimiter (the byte 0) cannot occur inside a frame; the call
  names consistent-overhead byte stuffing. \<open>stuff block bs\<close> carries the run of
  non-zero bytes read since the last code byte. A zero byte, the end of the payload or
  a run of 254 bytes closes the run: its code byte (the run's length plus one) is
  written in front of it.
\<close>

fun stuff :: "byte list \<Rightarrow> byte list \<Rightarrow> byte list" where
  "stuff block [] = of_nat (length block + 1) # block"
| "stuff block (b # bs) =
     (if b = 0 then of_nat (length block + 1) # block @ stuff [] bs
      else if length block + 1 = 254 then 0xFF # (block @ [b]) @ stuff [] bs
      else stuff (block @ [b]) bs)"

text \<open>
  Modelled from the spec: \<open>cobs.encode(buf, zeroFrame)\<close>, missing from the sources.
  With \<open>zeroFrame\<close> the delimiter is put in front of the stuffed bytes and behind
  them ("appends/prepends the delimiter so receivers can find frame edges").
\<close>

definition cobs_encode :: "byte list \<Rightarrow> bool \<Rightarrow> byte list" where
  "cobs_encode buf zeroFrame =
     (if zeroFrame then 0 # stuff [] buf @ [0] else stuff [] buf)"

text \<open>
  Modelled from the spec: the inverse transform, missing from the sources. A code byte
  \<open>c\<close> announces \<open>c - 1\<close> literal bytes; a zero is restored behind them unless the
  code is 255 or the input ends there. The result is \<open>None\<close> when the stuffing
  invariants are violated: a code byte of 0, a run longer than the rest of the input,
  or a delimiter inside a run.
\<close>

function unstuff :: "byte list \<Rightarrow> byte list option" where
  "unstuff [] = Some []"
| "unstuff (code # rest) =
     (let n = unat code - 1 in
      if code = 0 \<or> length rest < n \<or> 0 \<in> set (take n rest) then None
      else (case unstuff (drop n rest) of
              None \<Rightarrow> None
            | Some out \<Rightarrow>
                Some (take n rest
                      @ (if code \<noteq> 0xFF \<and> drop n rest \<noteq> [] then [0] else [])
                      @ out)))"
  by pat_completeness auto
termination
  by (relation "measure length") auto

text \<open>
  Modelled from the spec: \<open>encode(payload)\<close> of the frame codec, as the controller
  calls it (\<open>zeroFrame = true\<close>).
\<close>

definition encode :: "byte list \<Rightarrow> byte list" where
  "encode payload = cobs_encode payload True"

text \<open>
  Modelled from the spec: \<open>decode(framed bytes) -> payload | FrameError\<close>. The
  framed bytes start and end with the delimiter; what lies between is unstuffed.
\<close>

definition decode :: "byte list \<Rightarrow> frame_error + byte list" where
  "decode framed =
     (case framed of
        [] \<Rightarrow> Inl Malformed
      | d # rest \<Rightarrow>
          if d = 0 \<and> rest \<noteq> [] \<and> last rest = 0
          then (case unstuff (butlast rest) of
                  None \<Rightarrow> Inl Malformed
                | Some payload \<Rightarrow> Inr payload)
          else Inl Malformed)"

section \<open>Telemetry decoder\<close>

text \<open>
  \<open>odometry\<close> (parsers/odometry.js) turns the payload of an odometry frame into
  tick counts and a heading. Its helper \<open>parseDecToBinary\<close> comes from the package
  \<open>robotlib\<close>, which is not among the sources.
\<close>

text \<open>
  Modelled from the spec: \<open>robotlib.utils.math.parseDecToBinary\<close>, missing from the
  sources. The specification describes its result as the byte's full 8-digit binary
  string representation: eight characters \<open>0\<close> or \<open>1\<close>, most significant bit
  first.
\<close>

definition parseDecToBinary :: "byte \<Rightarrow> string" where
  "parseDecToBinary b = map (\<lambda>i. if bit b i then CHR ''1'' else CHR ''0'') (rev [0..<8])"

text \<open>
  JavaScript's \<open>parseInt(s, 2)\<close> reads the longest prefix of binary digits and is
  \<open>NaN\<close> (here \<open>None\<close>) when there is none. The strings it is given here hold no
  white space and no sign, which \<open>parseInt\<close> would skip.
\<close>

fun binaryValue :: "nat \<Rightarrow> string \<Rightarrow> nat" where
  "binaryValue n [] = n"
| "binaryValue n (c # cs) = binaryValue (2 * n + (if c = CHR ''1'' then 1 else 0)) cs"

definition parseInt2 :: "string \<Rightarrow> nat option" where
  "parseInt2 s =
     (let digits = takeWhile (\<lambda>c. c = CHR ''0'' \<or> c = CHR ''1'') s
      in if digits = [] then None else Some (binaryValue 0 digits))"

text \<open>
  The decoded event. Ticks are JavaScript numbers with integer values; the heading is
  the quotient by 100, read as an exact rational, or \<open>NaN\<close> (\<open>None\<close>).
\<close>

record telemetry =
  leftTicks :: int
  rightTicks :: int
  heading :: "rat option"

text \<open>\<open>data[i] || -1\<close>: a direction byte of 0 is falsy and gives \<open>-1\<close>.\<close>

definition orMinusOne :: "byte \<Rightarrow> int" where
  "orMinusOne b = (if b = 0 then - 1 else uint b)"

text \<open>
  \<open>odometry(data)\<close>. The payload has six bytes. On a shorter one JavaScript reads
  \<open>undefined\<close>, and what the missing helper makes of it is not specified: the
  embedding covers payloads of six bytes or more and is \<open>None\<close> otherwise.
\<close>

definition odometry :: "byte list \<Rightarrow> telemetry option" where
  "odometry data =
     (if length data < 6 then None
      else
        let leftMotorDirection = orMinusOne (data ! 0);
            deltaLeftTicks = uint (data ! 1);
            rightMotorDirection = orMinusOne (data ! 2);
            deltaRightTicks = uint (data ! 3);
            headingPartMsb = data ! 4;
            headingPartLsb = data ! 5;
            heading =
              map_option (\<lambda>n. of_nat n / 100)
                (parseInt2 (parseDecToBinary headingPartMsb @ parseDecToBinary headingPartLsb))
        in Some \<lparr> leftTicks = deltaLeftTicks * leftMotorDirection,
                  rightTicks = deltaRightTicks * rightMotorDirection,
                  heading = heading \<rparr>)"

section \<open>Command encoder\<close>

definition requestStartFlag :: byte where
  "requestStartFlag = 0xA3"

text \<open>
  Modelled from the spec: \<open>robotlib.utils.math.numberToHex\<close>, missing from the
  sources, together with the conversion \<open>Buffer.from\<close> applies to the array element.
  The specification says that an argument is encoded as a single unsigned byte, its
  value clamped to the range from 0 to 255.
\<close>

definition numberToHex :: "int \<Rightarrow> byte" where
  "numberToHex v = of_int (max 0 (min 255 v))"

text \<open>
  The arrays the command functions of mainController.js pass to \<open>writeToSerialPort\<close>.
  Arguments are JavaScript numbers with integer values. An omitted \<open>distance\<close> is 0.
\<close>

definition keepHeadingFrame :: "int \<Rightarrow> int \<Rightarrow> int \<Rightarrow> byte list" where
  "keepHeadingFrame speed hdg distance =
     [requestStartFlag, 0x16, numberToHex \<bar>speed\<bar>, numberToHex hdg,
      numberToHex (if speed > 0 then 1 else 0), numberToHex distance]"

definition forwardFrame :: "int \<Rightarrow> int \<Rightarrow> byte list" where
  "forwardFrame speed distance =
     [requestStartFlag, 0x10, numberToHex speed, numberToHex distance]"

definition reverseFrame :: "int \<Rightarrow> int \<Rightarrow> byte list" where
  "reverseFrame speed distance =
     [requestStartFlag, 0x11, numberToHex speed, numberToHex distance]"

definition rotateFrame :: "int \<Rightarrow> int \<Rightarrow> byte list" where
  "rotateFrame speed angle =
     [requestStartFlag, 0x12, numberToHex speed, numberToHex \<bar>angle\<bar>,
      numberToHex (if angle < 0 then 1 else 0)]"

definition turnFrame :: "int \<Rightarrow> int \<Rightarrow> int \<Rightarrow> byte list" where
  "turnFrame speed angle radius =
     [requestStartFlag, 0x13, numberToHex speed, numberToHex \<bar>angle\<bar>, numberToHex radius,
      numberToHex (if angle < 0 then 1 else 0)]"

definition driveFrame :: "int \<Rightarrow> int \<Rightarrow> byte list" where
  "driveFrame speedLeft speedRight =
     [requestStartFlag, 0x14, numberToHex speedLeft, numberToHex speedRight]"

definition stopFrame :: "int \<Rightarrow> byte list" where
  "stopFrame hard = [requestStartFlag, 0x15, numberToHex hard]"

definition resetIMUFrame :: "byte list" where
  "resetIMUFrame = [requestStartFlag, 0x20]"

text \<open>
  The second revision of mainController.js has \<open>rotate\<close> and \<open>turn\<close> with the
  direction bit the other way round (\<open>angle < 0 ? 0 : 1\<close>).
\<close>

definition rotateFrame_rev2 :: "int \<Rightarrow> int \<Rightarrow> byte list" where
  "rotateFrame_rev2 speed angle =
     [requestStartFlag, 0x12, numberToHex speed, numberToHex \<bar>angle\<bar>,
      numberToHex (if angle < 0 then 0 else 1)]"

definition turnFrame_rev2 :: "int \<Rightarrow> int \<Rightarrow> int \<Rightarrow> byte list" where
  "turnFrame_rev2 speed angle radius =
     [requestStartFlag, 0x13, numberToHex speed, numberToHex \<bar>angle\<bar>, numberToHex radius,
      numberToHex (if angle < 0 then 0 else 1)]"

text \<open>The commands of the public interface, and the array each one writes.\<close>

datatype command =
    KeepHeading int int int
  | Forward int int
  | Reverse int int
  | Rotate int int
  | Turn int int int
  | Drive int int
  | Stop int
  | ResetIMU

fun frame :: "command \<Rightarrow> byte list" where
  "frame (KeepHeading speed hdg distance) = keepHeadingFrame speed hdg distance"
| "frame (Forward speed distance) = forwardFrame speed distance"
| "frame (Reverse speed distance) = reverseFrame speed distance"
| "frame (Rotate speed angle) = rotateFrame speed angle"
| "frame (Turn speed angle radius) = turnFrame speed angle radius"
| "frame (Drive speedLeft speedRight) = driveFrame speedLeft speedRight"
| "frame (Stop hard) = stopFrame hard"
| "frame ResetIMU = resetIMUFrame"

text \<open>
  The opcode table as the specification lists it, to compare \<open>frame\<close> with. The
  specification calls \<open>drive\<close> driveRaw and \<open>resetIMU\<close> resetOrientation.
\<close>

fun spec_opcode :: "command \<Rightarrow> byte" where
  "spec_opcode (Forward _ _) = 0x10"
| "spec_opcode (Reverse _ _) = 0x11"
| "spec_opcode (Rotate _ _) = 0x12"
| "spec_opcode (Turn _ _ _) = 0x13"
| "spec_opcode (Drive _ _) = 0x14"
| "spec_opcode (Stop _) = 0x15"
| "spec_opcode (KeepHeading _ _ _) = 0x16"
| "spec_opcode ResetIMU = 0x20"

section \<open>The controller\<close>

text \<open>
  \<open>mainController\<close> keeps a port and a parser, both \<open>undefined\<close> (\<open>None\<close>) until
  \<open>init\<close>. The \<open>SerialPort\<close> and \<open>Parser\<close> objects, the event emitters and the
  promises live outside the sources; the state below records what the controller does
  to them:
  \<^item> objects are numbered in the order of their construction;
  \<^item> \<open>parserListeners\<close> holds the listeners attached with \<open>parser.on\<close>, in the
    order of attachment, each with the parser it is attached to and its event;
  \<^item> promises are numbered in the order of their creation; \<open>calls\<close> logs every call
    of a promise's \<open>resolve\<close> or \<open>reject\<close> function, and the first call for a
    promise settles it;
  \<^item> \<open>timers\<close> holds the pending \<open>setTimeout\<close> calls: the delay in milliseconds,
    and the promise and outcome of the function to run;
  \<^item> \<open>written\<close> logs the buffers given to \<open>port.write\<close>, \<open>emitted\<close> the events
    the parser listeners of \<open>init\<close> pass on to the public emitter.
\<close>

datatype js_error = TypeError

datatype event = Ready | Odometry | TargetReached

datatype port_event = PortError | PortDisconnect | PortClose | PortOpen

datatype outcome = Resolved | Rejected

datatype callback =
    ResolveInit nat
  | ForwardEvent
  | OnTargetReached nat

datatype ret = Undefined | Promise nat

record controller =
  port :: "nat option"
  parser :: "nat option"
  objects :: nat
  piped :: "(nat \<times> nat) list"
  portListeners :: "(nat \<times> port_event) list"
  parserListeners :: "(nat \<times> event \<times> callback) list"
  written :: "(nat \<times> byte list) list"
  promises :: nat
  calls :: "(nat \<times> outcome) list"
  timers :: "(nat \<times> nat \<times> outcome) list"
  emitted :: "event list"

definition initial :: controller where
  "initial = \<lparr> port = None, parser = None, objects = 0, piped = [], portListeners = [],
               parserListeners = [], written = [], promises = 0, calls = [], timers = [],
               emitted = [] \<rparr>"

text \<open>A promise is pending (\<open>None\<close>) until the first call of its resolve or reject function.\<close>

definition promiseState :: "controller \<Rightarrow> nat \<Rightarrow> outcome option" where
  "promiseState st h = map_of (calls st) h"

definition settle :: "nat \<Rightarrow> outcome \<Rightarrow> controller \<Rightarrow> controller" where
  "settle h out st = st\<lparr>calls := calls st @ [(h, out)]\<rparr>"

text \<open>
  \<open>writeToSerialPort(data)\<close>: \<open>port.write(cobs.encode(Buffer.from(data), true))\<close>.
  Before \<open>init\<close> the port is \<open>undefined\<close> and the call throws.
\<close>

definition writeToSerialPort :: "byte list \<Rightarrow> controller \<Rightarrow> js_error + controller" where
  "writeToSerialPort data st =
     (case port st of
        None \<Rightarrow> Inl TypeError
      | Some p \<Rightarrow> Inr (st\<lparr>written := written st @ [(p, cobs_encode data True)]\<rparr>))"

text \<open>
  \<open>init()\<close>. The promise's executor runs at once. With a port already there it
  schedules \<open>reject\<close> and goes on: a new port and a new parser are constructed and
  wired.
\<close>

definition init :: "controller \<Rightarrow> controller \<times> ret" where
  "init st =
     (let h = promises st;
          st1 = st\<lparr>promises := Suc h\<rparr>;
          st2 = (case port st1 of
                   Some _ \<Rightarrow> st1\<lparr>timers := timers st1 @ [(0, h, Rejected)]\<rparr>
                 | None \<Rightarrow> st1);
          p = objects st2;
          q = Suc (objects st2)
      in (st2\<lparr> port := Some p, parser := Some q, objects := objects st2 + 2,
                piped := piped st2 @ [(p, q)],
                portListeners := portListeners st2
                  @ [(p, PortError), (p, PortDisconnect), (p, PortClose), (p, PortOpen)],
                parserListeners := parserListeners st2
                  @ [(q, Ready, ResolveInit h), (q, Odometry, ForwardEvent),
                     (q, TargetReached, ForwardEvent)] \<rparr>,
          Promise h))"

text \<open>
  The promise that \<open>keepHeading\<close>, \<open>forward\<close>, \<open>reverse\<close>, \<open>rotate\<close> and \<open>turn\<close>
  return: its executor attaches \<open>onTargetReached\<close> to the parser. Were the parser
  \<open>undefined\<close>, the executor would throw and the promise be rejected.
\<close>

definition targetReachedPromise :: "controller \<Rightarrow> controller \<times> ret" where
  "targetReachedPromise st =
     (let h = promises st;
          st1 = st\<lparr>promises := Suc h\<rparr>
      in case parser st1 of
           None \<Rightarrow> (settle h Rejected st1, Promise h)
         | Some q \<Rightarrow>
             (st1\<lparr>parserListeners := parserListeners st1 @ [(q, TargetReached, OnTargetReached h)]\<rparr>,
              Promise h))"

definition keepHeading :: "int \<Rightarrow> int \<Rightarrow> int \<Rightarrow> controller \<Rightarrow> js_error + controller \<times> ret" where
  "keepHeading speed hdg distance st =
     (case writeToSerialPort (keepHeadingFrame speed hdg distance) st of
        Inl e \<Rightarrow> Inl e
      | Inr st1 \<Rightarrow> if distance \<noteq> 0 then Inr (targetReachedPromise st1) else Inr (st1, Undefined))"

definition forward :: "int \<Rightarrow> int \<Rightarrow> controller \<Rightarrow> js_error + controller \<times> ret" where
  "forward speed distance st =
     (case writeToSerialPort (forwardFrame speed distance) st of
        Inl e \<Rightarrow> Inl e
      | Inr st1 \<Rightarrow> if distance \<noteq> 0 then Inr (targetReachedPromise st1) else Inr (st1, Undefined))"

definition reverse :: "int \<Rightarrow> int \<Rightarrow> controller \<Rightarrow> js_error + controller \<times> ret" where
  "reverse speed distance st =
     (case writeToSerialPort (reverseFrame speed distance) st of
        Inl e \<Rightarrow> Inl e
      | Inr st1 \<Rightarrow> if distance \<noteq> 0 then Inr (targetReachedPromise st1) else Inr (st1, Undefined))"

definition rotate :: "int \<Rightarrow> int \<Rightarrow> controller \<Rightarrow> js_error + controller \<times> ret" where
  "rotate speed angle st =
     (case writeToSerialPort (rotateFrame speed angle) st of
        Inl e \<Rightarrow> Inl e
      | Inr st1 \<Rightarrow> Inr (targetReachedPromise st1))"

definition turn :: "int \<Rightarrow> int \<Rightarrow> int \<Rightarrow> controller \<Rightarrow> js_error + controller \<times> ret" where
  "turn speed angle radius st =
     (case writeToSerialPort (turnFrame speed angle radius) st of
        Inl e \<Rightarrow> Inl e
      | Inr st1 \<Rightarrow> Inr (targetReachedPromise st1))"

definition drive :: "int \<Rightarrow> int \<Rightarrow> controller \<Rightarrow> js_error + controller \<times> ret" where
  "drive speedLeft speedRight st =
     (case writeToSerialPort (driveFrame speedLeft speedRight) st of
        Inl e \<Rightarrow> Inl e
      | Inr st1 \<Rightarrow> Inr (st1, Undefined))"

text \<open>
  \<open>stop\<close> and \<open>resetIMU\<close> write inside the executor of the promise they return: an
  exception of the write rejects the promise, and otherwise \<open>setTimeout\<close> schedules
  \<open>resolve\<close>. \<open>hard ? 0 : 1000\<close> takes every number but 0 as true.
\<close>

definition stop :: "int \<Rightarrow> controller \<Rightarrow> js_error + controller \<times> ret" where
  "stop hard st =
     (let h = promises st;
          st1 = st\<lparr>promises := Suc h\<rparr>
      in case writeToSerialPort (stopFrame hard) st1 of
           Inl e \<Rightarrow> Inr (settle h Rejected st1, Promise h)
         | Inr st2 \<Rightarrow>
             Inr (st2\<lparr>timers := timers st2 @ [(if hard = 0 then 1000 else 0, h, Resolved)]\<rparr>,
                  Promise h))"

definition resetIMU :: "controller \<Rightarrow> js_error + controller \<times> ret" where
  "resetIMU st =
     (let h = promises st;
          st1 = st\<lparr>promises := Suc h\<rparr>
      in case writeToSerialPort resetIMUFrame st1 of
           Inl e \<Rightarrow> Inr (settle h Rejected st1, Promise h)
         | Inr st2 \<Rightarrow> Inr (st2\<lparr>timers := timers st2 @ [(1000, h, Resolved)]\<rparr>, Promise h))"

fun call :: "command \<Rightarrow> controller \<Rightarrow> js_error + controller \<times> ret" where
  "call (KeepHeading speed hdg distance) st = keepHeading speed hdg distance st"
| "call (Forward speed distance) st = forward speed distance st"
| "call (Reverse speed distance) st = reverse speed distance st"
| "call (Rotate speed angle) st = rotate speed angle st"
| "call (Turn speed angle radius) st = turn speed angle radius st"
| "call (Drive speedLeft speedRight) st = drive speedLeft speedRight st"
| "call (Stop hard) st = stop hard st"
| "call ResetIMU st = resetIMU st"

subsection \<open>Events and timers\<close>

text \<open>
  \<open>parser.off(event, listener)\<close> removes the instance of the listener attached last.
\<close>

definition removeListener :: "'a \<Rightarrow> 'a list \<Rightarrow> 'a list" where
  "removeListener x xs = rev (remove1 x (rev xs))"

text \<open>
  What a listener does when its event fires. \<open>onTargetReached\<close> detaches itself from
  the parser the variable \<open>parser\<close> holds at that moment and calls \<open>resolve\<close>.
\<close>

fun runCallback :: "event \<Rightarrow> callback \<Rightarrow> controller \<Rightarrow> js_error + controller" where
  "runCallback ev (ResolveInit h) st = Inr (settle h Resolved st)"
| "runCallback ev ForwardEvent st = Inr (st\<lparr>emitted := emitted st @ [ev]\<rparr>)"
| "runCallback ev (OnTargetReached h) st =
     (case parser st of
        None \<Rightarrow> Inl TypeError
      | Some q \<Rightarrow>
          Inr (settle h Resolved
                 (st\<lparr>parserListeners :=
                       removeListener (q, TargetReached, OnTargetReached h) (parserListeners st)\<rparr>)))"

fun runListeners :: "event \<Rightarrow> callback list \<Rightarrow> controller \<Rightarrow> js_error + controller" where
  "runListeners ev [] st = Inr st"
| "runListeners ev (cb # cbs) st =
     (case runCallback ev cb st of
        Inl e \<Rightarrow> Inl e
      | Inr st1 \<Rightarrow> runListeners ev cbs st1)"

text \<open>
  The parser \<open>q\<close> emits an event: the listeners attached to it for this event at that
  moment run in the order of their attachment.
\<close>

definition listenersOf :: "nat \<Rightarrow> event \<Rightarrow> controller \<Rightarrow> callback list" where
  "listenersOf q ev st =
     map (\<lambda>(_, _, cb). cb) (filter (\<lambda>(q1, ev1, _). q1 = q \<and> ev1 = ev) (parserListeners st))"

definition emit :: "nat \<Rightarrow> event \<Rightarrow> controller \<Rightarrow> js_error + controller" where
  "emit q ev st = runListeners ev (listenersOf q ev st) st"

text \<open>The \<open>i\<close>-th pending timer fires: its function is called and the timer is gone.\<close>

definition fireTimer :: "nat \<Rightarrow> controller \<Rightarrow> controller" where
  "fireTimer i st =
     (if i < length (timers st)
      then (case timers st ! i of
              (_, h, out) \<Rightarrow>
                settle h out (st\<lparr>timers := take i (timers st) @ drop (Suc i) (timers st)\<rparr>))
      else st)"

text \<open>What can happen to a controller, one step at a time, and runs of steps.\<close>

datatype step = Init | Call command | Emit nat event | Timeout nat

fun exec :: "step \<Rightarrow> controller \<Rightarrow> js_error + controller" where
  "exec Init st = Inr (fst (init st))"
| "exec (Call c) st = (case call c st of Inl e \<Rightarrow> Inl e | Inr (st1, _) \<Rightarrow> Inr st1)"
| "exec (Emit q ev) st = emit q ev st"
| "exec (Timeout i) st = Inr (fireTimer i st)"

fun run :: "step list \<Rightarrow> controller \<Rightarrow> js_error + controller" where
  "run [] st = Inr st"
| "run (s # ss) st = (case exec s st of Inl e \<Rightarrow> Inl e | Inr st1 \<Rightarrow> run ss st1)"

subsection \<open>Observations on a controller\<close>

text \<open>
  The promise whose \<open>resolve\<close> a listener calls, if it calls one.
\<close>

fun handleOf :: "callback \<Rightarrow> nat option" where
  "handleOf (ResolveInit h) = Some h"
| "handleOf ForwardEvent = None"
| "handleOf (OnTargetReached h) = Some h"

fun isOnTargetReached :: "callback \<Rightarrow> bool" where
  "isOnTargetReached (OnTargetReached _) = True"
| "isOnTargetReached _ = False"


text \<open>
  The promises that the attached listeners, the pending timers and the calls made so far refer to.
\<close>

definition listenerHandles :: "controller \<Rightarrow> nat set" where
  "listenerHandles st =
     set (concat (map (\<lambda>(_, _, cb). case handleOf cb of Some h \<Rightarrow> [h] | None \<Rightarrow> [])
                      (parserListeners st)))"

definition timerHandles :: "controller \<Rightarrow> nat set" where
  "timerHandles st = (\<lambda>(_, h, _). h) ` set (timers st)"

definition callHandles :: "controller \<Rightarrow> nat set" where
  "callHandles st = fst ` set (calls st)"

text \<open>
  Promises are numbered as they are created: in a state the controller can reach, nothing refers to
  a promise that does not exist yet.
\<close>

definition fresh :: "controller \<Rightarrow> bool" where
  "fresh st \<longleftrightarrow> (\<forall>h \<in> listenerHandles st \<union> timerHandles st \<union> callHandles st. h < promises st)"

text \<open>
  What a list of listeners adds to the log of calls when it runs, and which listeners it detaches
  from the parser \<open>q\<close> the controller holds.
\<close>

definition called :: "callback list \<Rightarrow> (nat \<times> outcome) list" where
  "called cbs = concat (map (\<lambda>cb. case handleOf cb of Some h \<Rightarrow> [(h, Resolved)] | None \<Rightarrow> []) cbs)"

definition detached :: "nat \<Rightarrow> callback list \<Rightarrow> (nat \<times> event \<times> callback) list" where
  "detached q cbs = map (\<lambda>cb. (q, TargetReached, cb)) (filter isOnTargetReached cbs)"

text \<open>
  The calls of the resolve and reject functions of the promise \<open>h\<close>, in order.
\<close>

definition settleCalls :: "controller \<Rightarrow> nat \<Rightarrow> (nat \<times> outcome) list" where
  "settleCalls st h = filter (\<lambda>(h1, _). h1 = h) (calls st)"

text \<open>
  The promise \<open>h\<close> of a command is pending and waits for the target-reached event of the parser
  \<open>q\<close>: its listener is attached there, and nothing else refers to it.
\<close>

definition awaiting :: "nat \<Rightarrow> nat \<Rightarrow> controller \<Rightarrow> bool" where
  "awaiting h q st \<longleftrightarrow>
     h < promises st \<and> port st \<noteq> None \<and> parser st \<noteq> None
     \<and> h \<notin> callHandles st \<and> h \<notin> timerHandles st
     \<and> (q, TargetReached, OnTargetReached h) \<in> set (parserListeners st)
     \<and> (\<forall>(q1, ev, cb) \<in> set (parserListeners st).
           handleOf cb = Some h \<longrightarrow> ev = TargetReached \<and> cb = OnTargetReached h)"




text \<open>
  Runs of steps in which no parser emits a target-reached event.
\<close>

fun isTargetReached :: "step \<Rightarrow> bool" where
  "isTargetReached (Emit _ TargetReached) = True"
| "isTargetReached _ = False"

definition quiet :: "step list \<Rightarrow> bool" where
  "quiet steps = (\<not> list_ex isTargetReached steps)"



text \<open>
  A run of parser events and nothing else.
\<close>

fun emits :: "(nat \<times> event) list \<Rightarrow> step list" where
  "emits [] = []"
| "emits ((q, ev) # evs) = Emit q ev # emits evs"

text \<open>
  The commands that return the target-reached promise: \<open>if (distance)\<close> guards it in
  \<open>keepHeading\<close>, \<open>forward\<close> and \<open>reverse\<close>; \<open>rotate\<close> and \<open>turn\<close> return it always.
\<close>

fun waits :: "command \<Rightarrow> bool" where
  "waits (KeepHeading _ _ distance) = (distance \<noteq> 0)"
| "waits (Forward _ distance) = (distance \<noteq> 0)"
| "waits (Reverse _ distance) = (distance \<noteq> 0)"
| "waits (Rotate _ _) = True"
| "waits (Turn _ _ _) = True"
| "waits _ = False"

text \<open>
  The controller after its first \<open>init()\<close>.
\<close>

definition ready :: controller where
  "ready = fst (init initial)"

section \<open>Properties of the frame codec\<close>

lemma stuff_nonempty: "stuff block bs \<noteq> []"
  by (induction bs arbitrary: block) auto

text \<open>One code byte and its run, read back.\<close>

lemma unstuff_block:
  assumes len: "length block < 255" and nz: "0 \<notin> set block"
  shows "unstuff (of_nat (length block + 1) # block @ rest) =
         (case unstuff rest of
            None \<Rightarrow> None
          | Some out \<Rightarrow>
              Some (block @ (if length block \<noteq> 254 \<and> rest \<noteq> [] then [0] else []) @ out))"
proof -
  define code :: byte where "code = of_nat (length block + 1)"
  have u: "unat code = length block + 1"
    unfolding code_def using len by (simp only: unat_of_nat) simp
  have c0: "code \<noteq> 0"
    using u by (metis Suc_eq_plus1 nat.distinct(1) unat_0)
  have cF: "code = 0xFF \<longleftrightarrow> length block = 254"
  proof
    assume "code = 0xFF"
    then have "unat code = 255" by simp
    with u show "length block = 254" by simp
  next
    assume "length block = 254"
    then show "code = 0xFF" unfolding code_def by simp
  qed
  have "unstuff (code # block @ rest) =
         (case unstuff rest of
            None \<Rightarrow> None
          | Some out \<Rightarrow>
              Some (block @ (if length block \<noteq> 254 \<and> rest \<noteq> [] then [0] else []) @ out))"
    using nz by (simp add: u c0 cF Let_def split: option.splits)
  then show ?thesis unfolding code_def .
qed

lemma unstuff_stuff:
  "length block < 254 \<Longrightarrow> 0 \<notin> set block \<Longrightarrow> unstuff (stuff block bs) = Some (block @ bs)"
proof (induction bs arbitrary: block)
  case Nil
  then show ?case using unstuff_block [of block "[]"] by simp
next
  case (Cons b bs)
  show ?case
  proof (cases "b = 0")
    case True
    have "unstuff (stuff [] bs) = Some bs" using Cons.IH [of "[]"] by simp
    then show ?thesis
      using True Cons.prems unstuff_block [of block "stuff [] bs"] stuff_nonempty [of "[]" bs]
      by simp
  next
    case False
    show ?thesis
    proof (cases "length block + 1 = 254")
      case True
      have "unstuff (stuff [] bs) = Some bs" using Cons.IH [of "[]"] by simp
      moreover have "(of_nat (length (block @ [b]) + 1) :: byte) = 0xFF" using True by simp
      ultimately show ?thesis
        using True False Cons.prems unstuff_block [of "block @ [b]" "stuff [] bs"]
        by simp
    next
      case short: False
      then have "length (block @ [b]) < 254" using Cons.prems by simp
      moreover have "0 \<notin> set (block @ [b])" using False Cons.prems by simp
      ultimately have "unstuff (stuff (block @ [b]) bs) = Some ((block @ [b]) @ bs)"
        by (rule Cons.IH)
      then show ?thesis using False short by simp
    qed
  qed
qed

text \<open>
  Claim C1. Decoding the codec's encoding of a payload returns the payload, for every
  byte sequence: the empty one, and those that contain the delimiter's value 0.
\<close>

theorem decode_encode_roundtrip: "decode (encode p) = Inr p"
  using unstuff_stuff [of "[]" p] stuff_nonempty [of "[]" p]
  by (simp add: decode_def encode_def cobs_encode_def)

section \<open>Properties of the telemetry decoder\<close>

lemma binaryValue_append: "binaryValue n (xs @ ys) = binaryValue (binaryValue n xs) ys"
  by (induction xs arbitrary: n) auto

text \<open>Reading the \<open>k\<close> lowest bits of a byte, written most significant bit first.\<close>

lemma binaryValue_bits:
  "binaryValue acc (map (\<lambda>i. if bit b i then CHR ''1'' else CHR ''0'') (rev [0..<k]))
   = acc * 2 ^ k + take_bit k (unat (b :: byte))"
proof (induction k arbitrary: acc)
  case 0
  show ?case by simp
next
  case (Suc k)
  let ?d = "if bit b k then 1 else 0 :: nat"
  have "binaryValue acc (map (\<lambda>i. if bit b i then CHR ''1'' else CHR ''0'') (rev [0..<Suc k]))
        = binaryValue (2 * acc + ?d)
            (map (\<lambda>i. if bit b i then CHR ''1'' else CHR ''0'') (rev [0..<k]))"
    by simp
  also have "\<dots> = (2 * acc + ?d) * 2 ^ k + take_bit k (unat b)"
    by (rule Suc.IH)
  also have "\<dots> = acc * 2 ^ Suc k + take_bit (Suc k) (unat b)"
    by (simp add: take_bit_Suc_from_most bit_unsigned_iff algebra_simps)
  finally show ?case .
qed

lemma parseDecToBinary_digits:
  "takeWhile (\<lambda>c. c = CHR ''0'' \<or> c = CHR ''1'') (parseDecToBinary a @ parseDecToBinary b)
   = parseDecToBinary a @ parseDecToBinary b"
  by (rule takeWhile_eq_all_conv [THEN iffD2]) (auto simp: parseDecToBinary_def)

lemma length_parseDecToBinary: "length (parseDecToBinary b) = 8"
  by (simp add: parseDecToBinary_def)

lemma take_bit_byte: "take_bit 8 (unat (b :: byte)) = unat b"
proof -
  have "unat b < 2 ^ 8" using unsigned_less [of b] by simp
  then show ?thesis by (simp add: take_bit_nat_eq_self)
qed

lemma binaryValue_byte: "binaryValue acc (parseDecToBinary b) = acc * 256 + unat b"
  unfolding parseDecToBinary_def binaryValue_bits by (simp add: take_bit_byte)

text \<open>
  Two 8-digit strings side by side are the 16 binary digits of the big-endian
  combination of the two bytes.
\<close>

lemma parseInt2_bytes:
  "parseInt2 (parseDecToBinary a @ parseDecToBinary b) = Some (unat a * 256 + unat b)"
proof -
  have ne: "parseDecToBinary a @ parseDecToBinary b \<noteq> []"
    using length_parseDecToBinary [of a] by auto
  have "binaryValue 0 (parseDecToBinary a @ parseDecToBinary b) = unat a * 256 + unat b"
    by (simp add: binaryValue_append binaryValue_byte)
  then show ?thesis
    using ne by (simp add: parseInt2_def parseDecToBinary_digits Let_def)
qed

lemma odometry_six:
  "odometry [ld, lt, rd, rt, hm, hl] =
     Some \<lparr> leftTicks = uint lt * orMinusOne ld, rightTicks = uint rt * orMinusOne rd,
            heading = Some (of_nat (unat hm * 256 + unat hl) / 100) \<rparr>"
  by (simp add: odometry_def parseInt2_bytes)

text \<open>
  With the 8-digit strings of the model the heading of every payload is the big-endian
  combination of the two heading bytes, divided by 100. This rests on the padding of
  the strings alone: the helper that produces them is not among the sources.
\<close>

lemma heading_of_padded_strings:
  "\<exists>t. odometry [ld, lt, rd, rt, hm, hl] = Some t
     \<and> heading t = map_option (\<lambda>n. of_nat n / 100)
                     (parseInt2 (parseDecToBinary hm @ parseDecToBinary hl))
     \<and> heading t = Some (of_nat (unat hm * 256 + unat hl) / 100)"
  by (simp add: odometry_six parseInt2_bytes)

text \<open>
  Claim C4. For every 6-byte payload the left ticks are the left delta times \<open>-1\<close> when
  the left direction byte is 0 and times the direction byte otherwise, and the same
  holds on the right; the payload \<open>[1, 10, 0, 5, headingMsb, headingLsb]\<close> gives 10
  left ticks and \<open>-5\<close> right ticks.
\<close>

theorem odometry_ticks:
  "(\<exists>t. odometry [ld, lt, rd, rt, hm, hl] = Some t
      \<and> leftTicks t = uint lt * (if ld = 0 then - 1 else uint ld)
      \<and> rightTicks t = uint rt * (if rd = 0 then - 1 else uint rd))
   \<and> map_option leftTicks (odometry [1, 10, 0, 5, hm, hl]) = Some 10
   \<and> map_option rightTicks (odometry [1, 10, 0, 5, hm, hl]) = Some (- 5)"
  by (simp add: odometry_six orMinusOne_def)

text \<open>
  Claim C10. A direction byte that is neither 0 nor 1 is not reduced to a sign: the
  ticks are the delta times the direction byte itself, so that a direction byte of 2
  doubles the count.
\<close>

theorem odometry_raw_direction:
  "(ld \<noteq> 0 \<and> ld \<noteq> 1 \<longrightarrow>
      map_option leftTicks (odometry [ld, lt, rd, rt, hm, hl]) = Some (uint lt * uint ld))
   \<and> (rd \<noteq> 0 \<and> rd \<noteq> 1 \<longrightarrow>
      map_option rightTicks (odometry [ld, lt, rd, rt, hm, hl]) = Some (uint rt * uint rd))
   \<and> map_option leftTicks (odometry [2, lt, rd, rt, hm, hl]) = Some (2 * uint lt)"
  by (simp add: odometry_six orMinusOne_def)

theorem odometry_raw_direction_witness:
  "map_option leftTicks (odometry [2, 10, 3, 5, 0, 0]) = Some 20
   \<and> map_option rightTicks (odometry [2, 10, 3, 5, 0, 0]) = Some 15"
  using odometry_raw_direction [of 2 10 3 5 0 0] by simp

section \<open>Properties of the command encoder\<close>

lemma numberToHex_byte: "0 \<le> v \<Longrightarrow> v \<le> 255 \<Longrightarrow> numberToHex v = of_int v"
  by (simp add: numberToHex_def)

lemma numberToHex_bit: "numberToHex 0 = 0" "numberToHex 1 = 1"
  by (simp_all add: numberToHex_def)

text \<open>
  Claim C5. \<open>rotate(20, -90)\<close> writes a frame with opcode \<open>0x12\<close> and magnitude byte
  90, and \<open>rotate(20, 90)\<close> the same bytes but for the direction byte, which is
  flipped. For every speed and every angle other than 0, the frames of \<open>rotate(s, a)\<close>
  and \<open>rotate(s, -a)\<close> agree on the start marker, the opcode, the speed byte and the
  magnitude byte and have opposite direction bytes. This holds in both revisions of
  the controller, whose direction bits are each other's inverse. The frame is the
  array given to \<open>writeToSerialPort\<close>, before byte stuffing.
\<close>

theorem rotate_sign_flip:
  assumes "a \<noteq> 0"
  shows "take 4 (rotateFrame s a) = [0xA3, 0x12, numberToHex s, numberToHex \<bar>a\<bar>]
       \<and> take 4 (rotateFrame s (- a)) = take 4 (rotateFrame s a)
       \<and> length (rotateFrame s a) = 5 \<and> length (rotateFrame s (- a)) = 5
       \<and> rotateFrame s a ! 4 = (if a < 0 then 1 else 0)
       \<and> rotateFrame s (- a) ! 4 = 1 - rotateFrame s a ! 4
       \<and> take 4 (rotateFrame_rev2 s a) = [0xA3, 0x12, numberToHex s, numberToHex \<bar>a\<bar>]
       \<and> take 4 (rotateFrame_rev2 s (- a)) = take 4 (rotateFrame_rev2 s a)
       \<and> length (rotateFrame_rev2 s a) = 5 \<and> length (rotateFrame_rev2 s (- a)) = 5
       \<and> rotateFrame_rev2 s a ! 4 = (if a < 0 then 0 else 1)
       \<and> rotateFrame_rev2 s (- a) ! 4 = 1 - rotateFrame_rev2 s a ! 4
       \<and> rotateFrame 20 (- 90) = [0xA3, 0x12, 20, 90, 1]
       \<and> rotateFrame 20 90 = [0xA3, 0x12, 20, 90, 0]
       \<and> rotateFrame_rev2 20 (- 90) = [0xA3, 0x12, 20, 90, 0]
       \<and> rotateFrame_rev2 20 90 = [0xA3, 0x12, 20, 90, 1]"
  using assms
  by (simp add: rotateFrame_def rotateFrame_rev2_def requestStartFlag_def numberToHex_bit
        numberToHex_byte)

theorem rotate_sign_flip_witness:
  "take 4 (rotateFrame 20 (- 90)) = take 4 (rotateFrame 20 90)
   \<and> rotateFrame 20 90 ! 4 = 0 \<and> rotateFrame 20 (- 90) ! 4 = 1
   \<and> rotateFrame_rev2 20 90 ! 4 = 1 \<and> rotateFrame_rev2 20 (- 90) ! 4 = 0"
  using rotate_sign_flip [of 90 20] by simp

section \<open>Properties of the controller\<close>

subsection \<open>Running listeners\<close>

lemma listenerHandles_mem:
  "h \<in> listenerHandles st \<longleftrightarrow>
     (\<exists>q ev cb. (q, ev, cb) \<in> set (parserListeners st) \<and> handleOf cb = Some h)"
proof
  assume "h \<in> listenerHandles st"
  then show "\<exists>q ev cb. (q, ev, cb) \<in> set (parserListeners st) \<and> handleOf cb = Some h"
    by (auto simp: listenerHandles_def split: option.splits) blast
next
  assume "\<exists>q ev cb. (q, ev, cb) \<in> set (parserListeners st) \<and> handleOf cb = Some h"
  then obtain q ev cb where m: "(q, ev, cb) \<in> set (parserListeners st)"
    and hc: "handleOf cb = Some h" by blast
  have "h \<in> set (case (q, ev, cb) of (_, _, cb) \<Rightarrow> case handleOf cb of Some h \<Rightarrow> [h] | None \<Rightarrow> [])"
    using hc by simp
  with m show "h \<in> listenerHandles st"
    unfolding listenerHandles_def set_concat set_map by blast
qed

lemma mset_removeListener: "mset (removeListener x xs) = mset xs - {#x#}"
  unfolding removeListener_def
  by (metis mset_remove1 mset_rev)

lemma runCallback_effect:
  assumes "runCallback ev cb st = Inr st'"
  shows "port st' = port st \<and> parser st' = parser st \<and> promises st' = promises st
       \<and> timers st' = timers st \<and> written st' = written st \<and> objects st' = objects st
       \<and> calls st' = calls st @ called [cb]
       \<and> (\<forall>q. parser st = Some q \<longrightarrow>
            mset (parserListeners st') = mset (parserListeners st) - mset (detached q [cb]))
       \<and> (parser st = None \<longrightarrow> parserListeners st' = parserListeners st)"
  using assms
  by (cases cb)
     (auto simp: settle_def called_def detached_def mset_removeListener split: option.splits)

lemma called_Cons: "called (cb # cbs) = called [cb] @ called cbs"
  by (simp add: called_def)

lemma detached_Cons: "detached q (cb # cbs) = detached q [cb] @ detached q cbs"
  by (simp add: detached_def)

lemma runListeners_effect:
  assumes "runListeners ev cbs st = Inr st'"
  shows "port st' = port st \<and> parser st' = parser st \<and> promises st' = promises st
       \<and> timers st' = timers st \<and> written st' = written st \<and> objects st' = objects st
       \<and> calls st' = calls st @ called cbs
       \<and> (\<forall>q. parser st = Some q \<longrightarrow>
            mset (parserListeners st') = mset (parserListeners st) - mset (detached q cbs))
       \<and> (parser st = None \<longrightarrow> parserListeners st' = parserListeners st)"
  using assms
proof (induction cbs arbitrary: st)
  case Nil
  then show ?case by (simp add: called_def detached_def)
next
  case (Cons cb cbs)
  from Cons.prems obtain st1 where
    one: "runCallback ev cb st = Inr st1" and rest: "runListeners ev cbs st1 = Inr st'"
    by (auto split: sum.splits)
  note e1 = runCallback_effect [OF one]
  note e2 = Cons.IH [OF rest]
  show ?case
    using e1 e2 by (simp add: called_Cons [of cb cbs] detached_Cons [of _ cb cbs])
qed

lemma runCallback_total: "parser st \<noteq> None \<Longrightarrow> \<exists>st'. runCallback ev cb st = Inr st'"
  by (cases cb) auto

lemma runListeners_total: "parser st \<noteq> None \<Longrightarrow> \<exists>st'. runListeners ev cbs st = Inr st'"
proof (induction cbs arbitrary: st)
  case Nil
  show ?case by simp
next
  case (Cons cb cbs)
  from runCallback_total [OF Cons.prems] obtain st1 where one: "runCallback ev cb st = Inr st1"
    by blast
  then have "parser st1 \<noteq> None" using runCallback_effect [OF one] Cons.prems by simp
  from Cons.IH [OF this] one show ?case by simp
qed

lemma timerHandles_mem: "h \<in> timerHandles st \<longleftrightarrow> (\<exists>d out. (d, h, out) \<in> set (timers st))"
  by (force simp: timerHandles_def)

lemma promiseState_pending: "promiseState st h = None \<longleftrightarrow> h \<notin> callHandles st"
  by (simp add: promiseState_def callHandles_def map_of_eq_None_iff)

lemma called_handles: "fst ` set (called cbs) = {h. \<exists>cb \<in> set cbs. handleOf cb = Some h}"
  by (auto simp: called_def split: option.splits) force

lemma called_resolved: "(h, out) \<in> set (called cbs) \<Longrightarrow> out = Resolved"
  by (auto simp: called_def split: option.splits)

lemma listenersOf_mem:
  "cb \<in> set (listenersOf q ev st) \<longleftrightarrow> (q, ev, cb) \<in> set (parserListeners st)"
  by (auto simp: listenersOf_def) force

lemma detached_mem:
  "x \<in> set (detached q cbs) \<longleftrightarrow> (\<exists>h. x = (q, TargetReached, OnTargetReached h) \<and> OnTargetReached h \<in> set cbs)"
proof -
  have "isOnTargetReached cb \<longleftrightarrow> (\<exists>h. cb = OnTargetReached h)" for cb
    by (cases cb) auto
  then show ?thesis by (auto simp: detached_def)
qed

lemma listeners_subset:
  assumes "runListeners ev cbs st = Inr st'"
  shows "set (parserListeners st') \<subseteq> set (parserListeners st)"
proof (cases "parser st")
  case None
  then show ?thesis using runListeners_effect [OF assms] by simp
next
  case (Some q)
  then have "mset (parserListeners st') = mset (parserListeners st) - mset (detached q cbs)"
    using runListeners_effect [OF assms] by simp
  then show ?thesis by (metis in_diffD set_mset_mset subsetI)
qed

lemma listener_kept:
  assumes r: "runListeners ev cbs st = Inr st'"
    and x: "x \<in> set (parserListeners st)"
    and nd: "\<And>q. parser st = Some q \<Longrightarrow> x \<notin> set (detached q cbs)"
  shows "x \<in> set (parserListeners st')"
proof (cases "parser st")
  case None
  then show ?thesis using runListeners_effect [OF r] x by simp
next
  case (Some q)
  then have m: "mset (parserListeners st') = mset (parserListeners st) - mset (detached q cbs)"
    using runListeners_effect [OF r] by simp
  have c0: "count (mset (detached q cbs)) x = 0"
    using nd [OF Some] by (simp add: count_eq_zero_iff)
  have cp: "count (mset (parserListeners st)) x > 0"
    using x by (simp add: count_greater_zero_iff)
  have "count (mset (parserListeners st')) x
        = count (mset (parserListeners st)) x - count (mset (detached q cbs)) x"
    by (simp only: m count_diff)
  with c0 cp have "count (mset (parserListeners st')) x > 0" by linarith
  then show ?thesis by (simp add: count_greater_zero_iff)
qed

subsection \<open>Steps keep a pending command pending\<close>

lemma awaiting_init: "awaiting h q st \<Longrightarrow> awaiting h q (fst (init st))"
  by (auto simp: awaiting_def init_def Let_def callHandles_def timerHandles_def
      split: option.splits)

lemma awaiting_call:
  assumes "awaiting h q st"
  shows "\<exists>st' r. call c st = Inr (st', r) \<and> awaiting h q st'"
proof -
  from assms obtain p q0 where pq: "port st = Some p" "parser st = Some q0"
    by (auto simp: awaiting_def)
  show ?thesis
    using assms pq
    by (cases c)
       (auto simp: awaiting_def keepHeading_def forward_def reverse_def rotate_def turn_def
          drive_def stop_def resetIMU_def writeToSerialPort_def targetReachedPromise_def
          settle_def Let_def callHandles_def timerHandles_def)
qed

lemma awaiting_fireTimer: "awaiting h q st \<Longrightarrow> awaiting h q (fireTimer i st)"
proof (cases "i < length (timers st)")
  case False
  assume "awaiting h q st"
  with False show ?thesis by (simp add: fireTimer_def)
next
  case True
  assume a: "awaiting h q st"
  obtain d h1 out where t: "timers st ! i = (d, h1, out)" by (cases "timers st ! i") auto
  have mem: "(d, h1, out) \<in> set (timers st)" using True t by (metis nth_mem)
  then have ne: "h1 \<noteq> h" using a by (auto simp: awaiting_def timerHandles_mem)
  have sub: "set (take i (timers st) @ drop (Suc i) (timers st)) \<subseteq> set (timers st)"
    using set_take_subset [of i "timers st"] set_drop_subset [of "Suc i" "timers st"] by auto
  show ?thesis
    using a True t ne sub
    by (auto simp: awaiting_def fireTimer_def settle_def callHandles_def timerHandles_mem)
qed

lemma awaiting_emit:
  assumes a: "awaiting h q st" and ev: "ev \<noteq> TargetReached"
  shows "\<exists>st'. emit q1 ev st = Inr st' \<and> awaiting h q st'"
proof -
  let ?cbs = "listenersOf q1 ev st"
  from a have "parser st \<noteq> None" by (simp add: awaiting_def)
  from runListeners_total [OF this] obtain st' where r: "runListeners ev ?cbs st = Inr st'"
    by blast
  note e = runListeners_effect [OF r]
  have noh: "\<And>cb. cb \<in> set ?cbs \<Longrightarrow> handleOf cb \<noteq> Some h"
    using a ev by (auto simp: listenersOf_mem awaiting_def)
  have c: "h \<notin> callHandles st'"
    using a e noh by (auto simp: awaiting_def callHandles_def called_handles image_Un)
  have k: "(q, TargetReached, OnTargetReached h) \<in> set (parserListeners st')"
  proof (rule listener_kept [OF r])
    show "(q, TargetReached, OnTargetReached h) \<in> set (parserListeners st)"
      using a by (simp add: awaiting_def)
  next
    fix q0
    show "(q, TargetReached, OnTargetReached h) \<notin> set (detached q0 ?cbs)"
      using noh [of "OnTargetReached h"] by (auto simp: detached_mem)
  qed
  have "awaiting h q st'"
    using a e c k listeners_subset [OF r]
    by (auto simp: awaiting_def timerHandles_def)
  then show ?thesis using r by (auto simp: emit_def)
qed

lemma awaiting_exec:
  assumes "awaiting h q st" and "\<not> isTargetReached s"
  shows "\<exists>st'. exec s st = Inr st' \<and> awaiting h q st'"
proof (cases s)
  case Init
  then show ?thesis using awaiting_init [OF assms(1)] by simp
next
  case (Call c)
  then show ?thesis using awaiting_call [OF assms(1), of c] by auto
next
  case (Emit q1 ev)
  with assms(2) have "ev \<noteq> TargetReached" by (cases ev) auto
  from awaiting_emit [OF assms(1) this, of q1] Emit show ?thesis by simp
next
  case (Timeout i)
  then show ?thesis using awaiting_fireTimer [OF assms(1)] by simp
qed

lemma awaiting_run:
  "awaiting h q st \<Longrightarrow> quiet steps \<Longrightarrow> \<exists>st'. run steps st = Inr st' \<and> awaiting h q st'"
proof (induction steps arbitrary: st)
  case Nil
  then show ?case by simp
next
  case (Cons s steps)
  from Cons.prems(2) have q1: "\<not> isTargetReached s" and q2: "quiet steps"
    by (simp_all add: quiet_def)
  from awaiting_exec [OF Cons.prems(1) q1] obtain st1 where
    s1: "exec s st = Inr st1" and a1: "awaiting h q st1" by blast
  from Cons.IH [OF a1 q2] s1 show ?case by simp
qed

lemma map_of_all_resolved:
  assumes "h \<in> fst ` set xs" and "\<And>k v. (k, v) \<in> set xs \<Longrightarrow> v = Resolved"
  shows "map_of xs h = Some Resolved"
proof -
  from assms(1) obtain v where "map_of xs h = Some v"
    by (metis map_of_eq_None_iff not_None_eq)
  moreover from this have "(h, v) \<in> set xs" by (rule map_of_SomeD)
  ultimately show ?thesis using assms(2) by simp
qed

lemma awaiting_resolves:
  assumes a: "awaiting h q st"
  shows "\<exists>st'. emit q TargetReached st = Inr st' \<and> promiseState st' h = Some Resolved"
proof -
  let ?cbs = "listenersOf q TargetReached st"
  from a have "parser st \<noteq> None" by (simp add: awaiting_def)
  from runListeners_total [OF this] obtain st' where
    r: "runListeners TargetReached ?cbs st = Inr st'" by blast
  note e = runListeners_effect [OF r]
  have "OnTargetReached h \<in> set ?cbs" using a by (simp add: listenersOf_mem awaiting_def)
  then have "h \<in> fst ` set (called ?cbs)"
    by (auto simp: called_handles intro!: bexI [of _ "OnTargetReached h"])
  then have "map_of (called ?cbs) h = Some Resolved"
    by (rule map_of_all_resolved) (rule called_resolved)
  moreover have "map_of (calls st) h = None"
    using a by (simp add: awaiting_def callHandles_def map_of_eq_None_iff)
  ultimately have "promiseState st' h = Some Resolved"
    using e by (simp add: promiseState_def map_add_def)
  then show ?thesis using r by (auto simp: emit_def)
qed

subsection \<open>Reachable states are fresh\<close>

text \<open>
  The theorems below are about fresh states. Every state the controller reaches from
  its initial state is one, whatever the calls, events and timers on the way.
\<close>

lemma fresh_initial: "fresh initial"
  by (simp add: fresh_def initial_def listenerHandles_def timerHandles_def callHandles_def)

lemma freshI:
  assumes "\<And>q ev cb h. (q, ev, cb) \<in> set (parserListeners st) \<Longrightarrow> handleOf cb = Some h
              \<Longrightarrow> h < promises st"
    and "\<And>d h out. (d, h, out) \<in> set (timers st) \<Longrightarrow> h < promises st"
    and "\<And>h out. (h, out) \<in> set (calls st) \<Longrightarrow> h < promises st"
  shows "fresh st"
proof -
  have "h < promises st" if "h \<in> listenerHandles st" for h
    using that assms(1) by (auto simp: listenerHandles_mem)
  moreover have "h < promises st" if "h \<in> timerHandles st" for h
    using that assms(2) by (auto simp: timerHandles_mem)
  moreover have "h < promises st" if "h \<in> callHandles st" for h
    using that assms(3) by (auto simp: callHandles_def)
  ultimately show ?thesis by (auto simp: fresh_def)
qed

lemma freshD:
  assumes "fresh st"
  shows "(q, ev, cb) \<in> set (parserListeners st) \<Longrightarrow> handleOf cb = Some h \<Longrightarrow> h < promises st"
    and "(d, h, out) \<in> set (timers st) \<Longrightarrow> h < promises st"
    and "(h, out) \<in> set (calls st) \<Longrightarrow> h < promises st"
proof -
  assume "(q, ev, cb) \<in> set (parserListeners st)" "handleOf cb = Some h"
  then have "h \<in> listenerHandles st" by (auto simp: listenerHandles_mem)
  with assms show "h < promises st" by (simp add: fresh_def)
next
  assume "(d, h, out) \<in> set (timers st)"
  then have "h \<in> timerHandles st" by (force simp: timerHandles_def)
  with assms show "h < promises st" by (simp add: fresh_def)
next
  assume "(h, out) \<in> set (calls st)"
  then have "h \<in> callHandles st" by (force simp: callHandles_def)
  with assms show "h < promises st" by (simp add: fresh_def)
qed

lemma fresh_init: "fresh st \<Longrightarrow> fresh (fst (init st))"
  by (rule freshI)
     (auto simp: init_def Let_def less_Suc_eq split: option.splits dest: freshD)

lemma fresh_call:
  assumes "fresh st" and "call c st = Inr (st', r)"
  shows "fresh st'"
proof (rule freshI)
  fix q ev cb h
  assume "(q, ev, cb) \<in> set (parserListeners st')" "handleOf cb = Some h"
  then show "h < promises st'"
    using assms
    by (cases c)
       (auto simp: keepHeading_def forward_def reverse_def rotate_def turn_def
          drive_def stop_def resetIMU_def writeToSerialPort_def targetReachedPromise_def
          settle_def Let_def less_Suc_eq split: option.splits if_splits dest: freshD)
next
  fix d h out
  assume "(d, h, out) \<in> set (timers st')"
  then show "h < promises st'"
    using assms
    by (cases c)
       (auto simp: keepHeading_def forward_def reverse_def rotate_def turn_def
          drive_def stop_def resetIMU_def writeToSerialPort_def targetReachedPromise_def
          settle_def Let_def less_Suc_eq split: option.splits if_splits dest: freshD)
next
  fix h out
  assume "(h, out) \<in> set (calls st')"
  then show "h < promises st'"
    using assms
    by (cases c)
       (auto simp: keepHeading_def forward_def reverse_def rotate_def turn_def
          drive_def stop_def resetIMU_def writeToSerialPort_def targetReachedPromise_def
          settle_def Let_def less_Suc_eq split: option.splits if_splits dest: freshD)
qed

lemma fresh_fireTimer:
  assumes a: "fresh st"
  shows "fresh (fireTimer i st)"
proof (cases "i < length (timers st)")
  case False
  with a show ?thesis by (simp add: fireTimer_def)
next
  case True
  obtain d h1 out where t: "timers st ! i = (d, h1, out)" by (cases "timers st ! i") auto
  have mem: "(d, h1, out) \<in> set (timers st)" using True t by (metis nth_mem)
  then have lt: "h1 < promises st" using a by (rule freshD(2) [rotated])
  show ?thesis
    using True t lt
    by (intro freshI)
       (auto simp: fireTimer_def settle_def
          dest: freshD [OF a] freshD(2) [OF a in_set_takeD] freshD(2) [OF a in_set_dropD])
qed

lemma fresh_emit:
  assumes a: "fresh st" and r: "emit q ev st = Inr st'"
  shows "fresh st'"
proof -
  let ?cbs = "listenersOf q ev st"
  from r have r': "runListeners ev ?cbs st = Inr st'" by (simp add: emit_def)
  note e = runListeners_effect [OF r']
  have new: "h < promises st" if "(h, out) \<in> set (called ?cbs)" for h out
  proof -
    from that have "h \<in> fst ` set (called ?cbs)" by force
    then obtain cb where "(q, ev, cb) \<in> set (parserListeners st)" "handleOf cb = Some h"
      by (auto simp: called_handles listenersOf_mem)
    then show ?thesis by (rule freshD(1) [OF a])
  qed
  show ?thesis
  proof (rule freshI)
    fix q1 ev1 cb h
    assume "(q1, ev1, cb) \<in> set (parserListeners st')" and hc: "handleOf cb = Some h"
    then have "(q1, ev1, cb) \<in> set (parserListeners st)" using listeners_subset [OF r'] by auto
    then show "h < promises st'" using e freshD(1) [OF a _ hc] by simp
  next
    fix d h out
    assume "(d, h, out) \<in> set (timers st')"
    then show "h < promises st'" using e freshD(2) [OF a] by simp
  next
    fix h out
    assume "(h, out) \<in> set (calls st')"
    then show "h < promises st'" using e freshD(3) [OF a] new by auto
  qed
qed

lemma fresh_exec:
  assumes "fresh st" and "exec s st = Inr st'"
  shows "fresh st'"
proof (cases s)
  case Init
  then show ?thesis using fresh_init [OF assms(1)] assms(2) by auto
next
  case (Call c)
  with assms(2) obtain r where "call c st = Inr (st', r)"
    by (auto split: sum.splits)
  then show ?thesis by (rule fresh_call [OF assms(1)])
next
  case (Emit q ev)
  then show ?thesis using fresh_emit [OF assms(1), of q ev st'] assms(2) by simp
next
  case (Timeout i)
  then show ?thesis using fresh_fireTimer [OF assms(1), of i] assms(2) by auto
qed

lemma fresh_run: "fresh st \<Longrightarrow> run steps st = Inr st' \<Longrightarrow> fresh st'"
proof (induction steps arbitrary: st)
  case Nil
  then show ?case by simp
next
  case (Cons s steps)
  from Cons.prems(2) obtain st1 where
    s1: "exec s st = Inr st1" and r1: "run steps st1 = Inr st'"
    by (auto split: sum.splits)
  from Cons.IH [OF fresh_exec [OF Cons.prems(1) s1] r1] show ?case .
qed

lemma fresh_reachable: "run steps initial = Inr st \<Longrightarrow> fresh st"
  by (rule fresh_run [OF fresh_initial])

subsection \<open>What a command does to an initialised controller\<close>

lemma fresh_promises:
  assumes "fresh st"
  shows "promises st \<notin> listenerHandles st" "promises st \<notin> timerHandles st"
    "promises st \<notin> callHandles st"
  using assms by (auto simp: fresh_def)

lemma waits_call:
  assumes "port st = Some p" and "parser st = Some q" and "waits c"
  shows "call c st =
     Inr (st\<lparr> written := written st @ [(p, encode (frame c))],
               promises := Suc (promises st),
               parserListeners :=
                 parserListeners st @ [(q, TargetReached, OnTargetReached (promises st))] \<rparr>,
          Promise (promises st))"
  using assms
  by (cases c)
     (simp_all add: keepHeading_def forward_def reverse_def rotate_def turn_def
        writeToSerialPort_def targetReachedPromise_def Let_def encode_def)

lemma zero_distance_call:
  assumes "port st = Some p"
  shows "keepHeading s hdg 0 st = Inr (st\<lparr>written := written st @ [(p, encode (keepHeadingFrame s hdg 0))]\<rparr>, Undefined)"
    and "forward s 0 st = Inr (st\<lparr>written := written st @ [(p, encode (forwardFrame s 0))]\<rparr>, Undefined)"
    and "reverse s 0 st = Inr (st\<lparr>written := written st @ [(p, encode (reverseFrame s 0))]\<rparr>, Undefined)"
  using assms
  by (simp_all add: keepHeading_def forward_def reverse_def writeToSerialPort_def encode_def)

lemma awaiting_after_call:
  assumes f: "fresh st" and p: "port st = Some p" and q: "parser st = Some q"
  shows "awaiting (promises st) q
           (st\<lparr> written := w, promises := Suc (promises st),
                 parserListeners :=
                   parserListeners st @ [(q, TargetReached, OnTargetReached (promises st))] \<rparr>)"
  using fresh_promises [OF f] p q
  by (auto simp: awaiting_def callHandles_def timerHandles_mem listenerHandles_mem)

text \<open>
  Claim C2, amended. On an initialised controller, \<open>keepHeading\<close>, \<open>forward\<close> and
  \<open>reverse\<close> with a zero distance write their frame and return at once, with no
  promise and no listener. With a non-zero distance they return a promise, and so do
  \<open>rotate\<close> and \<open>turn\<close> for every angle, zero included. The promise is pending; it
  stays pending through every run of calls, timers and events without a target-reached
  event; the next target-reached event of the parser resolves it.
\<close>

theorem motion_completion:
  assumes f: "fresh st" and p: "port st = Some p" and q: "parser st = Some q"
  shows "keepHeading s hdg 0 st
           = Inr (st\<lparr>written := written st @ [(p, encode (keepHeadingFrame s hdg 0))]\<rparr>, Undefined)
       \<and> forward s 0 st
           = Inr (st\<lparr>written := written st @ [(p, encode (forwardFrame s 0))]\<rparr>, Undefined)
       \<and> reverse s 0 st
           = Inr (st\<lparr>written := written st @ [(p, encode (reverseFrame s 0))]\<rparr>, Undefined)
       \<and> (\<forall>c. waits c \<longrightarrow>
            (\<exists>st1. call c st = Inr (st1, Promise (promises st))
               \<and> promiseState st1 (promises st) = None
               \<and> (\<forall>steps. quiet steps \<longrightarrow>
                     (\<exists>st2 st3. run steps st1 = Inr st2
                        \<and> promiseState st2 (promises st) = None
                        \<and> emit q TargetReached st2 = Inr st3
                        \<and> promiseState st3 (promises st) = Some Resolved))))
       \<and> waits (Rotate s 0)"
proof -
  have "\<exists>st1. call c st = Inr (st1, Promise (promises st))
               \<and> promiseState st1 (promises st) = None
               \<and> (\<forall>steps. quiet steps \<longrightarrow>
                     (\<exists>st2 st3. run steps st1 = Inr st2
                        \<and> promiseState st2 (promises st) = None
                        \<and> emit q TargetReached st2 = Inr st3
                        \<and> promiseState st3 (promises st) = Some Resolved))"
    if w: "waits c" for c
  proof -
    let ?h = "promises st"
    let ?st1 = "st\<lparr> written := written st @ [(p, encode (frame c))], promises := Suc ?h,
                 parserListeners := parserListeners st @ [(q, TargetReached, OnTargetReached ?h)] \<rparr>"
    have c1: "call c st = Inr (?st1, Promise ?h)" by (rule waits_call [OF p q w])
    have a1: "awaiting ?h q ?st1" by (rule awaiting_after_call [OF f p q])
    have p1: "promiseState ?st1 ?h = None"
      using a1 by (simp add: promiseState_pending awaiting_def)
    have later: "\<exists>st2 st3. run steps ?st1 = Inr st2 \<and> promiseState st2 ?h = None
            \<and> emit q TargetReached st2 = Inr st3 \<and> promiseState st3 ?h = Some Resolved"
      if qs: "quiet steps" for steps
    proof -
      from awaiting_run [OF a1 qs] obtain st2 where
        r: "run steps ?st1 = Inr st2" and a2: "awaiting ?h q st2" by blast
      from awaiting_resolves [OF a2] obtain st3 where
        "emit q TargetReached st2 = Inr st3" "promiseState st3 ?h = Some Resolved" by blast
      moreover have "promiseState st2 ?h = None"
        using a2 by (simp add: promiseState_pending awaiting_def)
      ultimately show ?thesis using r by blast
    qed
    show ?thesis using c1 p1 later by blast
  qed
  then show ?thesis using zero_distance_call [OF p] by simp
qed

lemma ready_simps:
  "port ready = Some 0" "parser ready = Some 1" "promises ready = 1" "timers ready = []"
  "calls ready = []" "written ready = []" "objects ready = 2"
  "parserListeners ready = [(1, Ready, ResolveInit 0), (1, Odometry, ForwardEvent),
                           (1, TargetReached, ForwardEvent)]"
  by (simp_all add: ready_def init_def initial_def Let_def)

lemma fresh_ready: "fresh ready"
  by (auto simp: fresh_def listenerHandles_mem timerHandles_mem callHandles_def ready_simps)

theorem motion_completion_witness:
  "(\<exists>st1. forward 20 0 ready = Inr (st1, Undefined))
   \<and> (\<exists>st1 st2 st3. forward 20 100 ready = Inr (st1, Promise 1)
         \<and> run [Emit 1 Odometry, Call (Drive 10 10)] st1 = Inr st2
         \<and> promiseState st2 1 = None
         \<and> emit 1 TargetReached st2 = Inr st3
         \<and> promiseState st3 1 = Some Resolved)"
proof -
  note t = motion_completion [OF fresh_ready ready_simps(1) ready_simps(2), of 20 0]
  from t have z: "\<exists>st1. forward 20 0 ready = Inr (st1, Undefined)" by blast
  have w: "waits (Forward 20 100)" by simp
  from t w obtain st1 where
    c: "call (Forward 20 100) ready = Inr (st1, Promise (promises ready))"
    and l: "\<forall>steps. quiet steps \<longrightarrow>
                     (\<exists>st2 st3. run steps st1 = Inr st2
                        \<and> promiseState st2 (promises ready) = None
                        \<and> emit 1 TargetReached st2 = Inr st3
                        \<and> promiseState st3 (promises ready) = Some Resolved)"
    by blast
  have "quiet [Emit 1 Odometry, Call (Drive 10 10)]" by (simp add: quiet_def)
  with l obtain st2 st3 where "run [Emit 1 Odometry, Call (Drive 10 10)] st1 = Inr st2"
    "promiseState st2 (promises ready) = None" "emit 1 TargetReached st2 = Inr st3"
    "promiseState st3 (promises ready) = Some Resolved" by blast
  with c z show ?thesis by (auto simp: ready_simps)
qed

text \<open>
  Claim C2, as stated, has \<open>rotate\<close> with a zero angle resolve at once. \<open>rotate\<close>
  has no such guard: \<open>rotate(20, 0)\<close> returns a promise that is pending, with its
  listener attached and no timer set, until a target-reached event arrives.
\<close>

theorem rotate_zero_counterexample:
  "(case rotate 20 0 ready of
      Inl e \<Rightarrow> False
    | Inr (st1, r) \<Rightarrow>
        r = Promise 1 \<and> promiseState st1 1 = None
        \<and> listenersOf 1 TargetReached st1 = [ForwardEvent, OnTargetReached 1]
        \<and> timers st1 = [])"
  by (simp add: rotate_def writeToSerialPort_def targetReachedPromise_def Let_def ready_simps
      promiseState_def listenersOf_def)

subsection \<open>The frame of every command\<close>

text \<open>
  Claim C6. The frame of every command starts with the start marker \<open>0xA3\<close>, then the
  opcode of the specification's table (\<open>0x10\<close> forward, \<open>0x11\<close> reverse, \<open>0x12\<close>
  rotate, \<open>0x13\<close> turn, \<open>0x14\<close> drive, \<open>0x15\<close> stop, \<open>0x16\<close> keepHeading, \<open>0x20\<close>
  resetIMU), then the argument bytes: one byte for each argument in the order of the
  source, a signed argument as its magnitude with the direction byte where the source
  puts it. \<open>rotate\<close> and \<open>turn\<close> of the second revision have the same bytes with the
  direction bit inverted. This frame, byte-stuffed, is what the command gives to
  \<open>port.write\<close> on a controller with a port.
\<close>

theorem command_frame_bytes:
  assumes "port st = Some p"
  shows "frame (Forward s d) = [0xA3, 0x10, numberToHex s, numberToHex d]
       \<and> frame (Reverse s d) = [0xA3, 0x11, numberToHex s, numberToHex d]
       \<and> frame (Rotate s a)
           = [0xA3, 0x12, numberToHex s, numberToHex \<bar>a\<bar>, numberToHex (if a < 0 then 1 else 0)]
       \<and> frame (Turn s a r)
           = [0xA3, 0x13, numberToHex s, numberToHex \<bar>a\<bar>, numberToHex r,
              numberToHex (if a < 0 then 1 else 0)]
       \<and> frame (Drive l r) = [0xA3, 0x14, numberToHex l, numberToHex r]
       \<and> frame (Stop hard) = [0xA3, 0x15, numberToHex hard]
       \<and> frame (KeepHeading s hdg d)
           = [0xA3, 0x16, numberToHex \<bar>s\<bar>, numberToHex hdg,
              numberToHex (if s > 0 then 1 else 0), numberToHex d]
       \<and> frame ResetIMU = [0xA3, 0x20]
       \<and> rotateFrame_rev2 s a
           = [0xA3, 0x12, numberToHex s, numberToHex \<bar>a\<bar>, numberToHex (if a < 0 then 0 else 1)]
       \<and> turnFrame_rev2 s a r
           = [0xA3, 0x13, numberToHex s, numberToHex \<bar>a\<bar>, numberToHex r,
              numberToHex (if a < 0 then 0 else 1)]
       \<and> frame c = 0xA3 # spec_opcode c # drop 2 (frame c)
       \<and> (\<exists>st' r. call c st = Inr (st', r)
             \<and> written st' = written st @ [(p, cobs_encode (frame c) True)])"
proof -
  have w: "\<exists>st' r. call c st = Inr (st', r)
             \<and> written st' = written st @ [(p, cobs_encode (frame c) True)]"
    using assms
    by (cases c)
       (auto simp: keepHeading_def forward_def reverse_def rotate_def turn_def drive_def
          stop_def resetIMU_def writeToSerialPort_def targetReachedPromise_def settle_def
          Let_def split: option.splits)
  have o: "frame c = 0xA3 # spec_opcode c # drop 2 (frame c)"
    by (cases c)
       (simp_all add: keepHeadingFrame_def forwardFrame_def reverseFrame_def rotateFrame_def
          turnFrame_def driveFrame_def stopFrame_def resetIMUFrame_def requestStartFlag_def)
  show ?thesis
    using w o
    by (simp add: keepHeadingFrame_def forwardFrame_def reverseFrame_def rotateFrame_def
        turnFrame_def driveFrame_def stopFrame_def resetIMUFrame_def rotateFrame_rev2_def
        turnFrame_rev2_def requestStartFlag_def)
qed

theorem command_frame_bytes_witness:
  "frame (Forward 20 100) = [0xA3, 0x10, 20, 100]
   \<and> (\<exists>st' r. call (Forward 20 100) ready = Inr (st', r)
         \<and> written st' = [(0, [0, 5, 0xA3, 0x10, 20, 100, 0])])"
  using command_frame_bytes [OF ready_simps(1), where c = "Forward 20 100" and s = 20 and d = 100]
  by (simp add: ready_simps numberToHex_def forwardFrame_def requestStartFlag_def
      cobs_encode_def)

subsection \<open>A settled command stays settled\<close>








subsection \<open>A target-reached event detaches every command listener\<close>






subsection \<open>From the call to the event\<close>















subsection \<open>Stop\<close>

lemma emit_untouched:
  assumes h: "h \<notin> listenerHandles st" "h \<notin> callHandles st" and r: "emit q ev st = Inr st'"
  shows "h \<notin> listenerHandles st' \<and> h \<notin> callHandles st' \<and> timers st' = timers st"
proof -
  let ?cbs = "listenersOf q ev st"
  from r have r': "runListeners ev ?cbs st = Inr st'" by (simp add: emit_def)
  note e = runListeners_effect [OF r']
  have "h \<notin> fst ` set (called ?cbs)"
    using h(1) by (auto simp: called_handles listenersOf_mem listenerHandles_mem)
  then have "h \<notin> callHandles st'" using h(2) e by (simp add: callHandles_def image_Un)
  moreover have "h \<notin> listenerHandles st'"
    using h(1) listeners_subset [OF r'] by (auto simp: listenerHandles_mem)
  ultimately show ?thesis using e by simp
qed

lemma emits_untouched:
  "h \<notin> listenerHandles st \<Longrightarrow> h \<notin> callHandles st \<Longrightarrow> run (emits evs) st = Inr st'
   \<Longrightarrow> h \<notin> listenerHandles st' \<and> h \<notin> callHandles st' \<and> timers st' = timers st"
proof (induction evs arbitrary: st)
  case Nil
  then show ?case by simp
next
  case (Cons x evs)
  obtain q ev where x: "x = (q, ev)" by (cases x)
  from Cons.prems(3) x obtain st1 where
    s1: "emit q ev st = Inr st1" and r1: "run (emits evs) st1 = Inr st'"
    by (auto split: sum.splits)
  from emit_untouched [OF Cons.prems(1,2) s1] Cons.IH [OF _ _ r1] show ?case by simp
qed

lemma fireTimer_last:
  assumes "timers st = ts @ [(d, h, out)]" and "h \<notin> callHandles st"
  shows "promiseState (fireTimer (length ts) st) h = Some out"
proof -
  have "map_of (calls st) h = None"
    using assms(2) by (simp add: callHandles_def map_of_eq_None_iff)
  then show ?thesis
    using assms(1) by (simp add: fireTimer_def settle_def promiseState_def map_add_def)
qed

text \<open>
  Claim C9. \<open>stop(hard)\<close> on a controller with a port writes its frame in the call
  and sets a timer that resolves the returned promise: after 1000 ms when \<open>hard\<close> is
  0, after 0 ms otherwise. It attaches no listener. Firing the timer resolves the
  promise with no event needed, and no run of parser events resolves it or touches the
  timer.
\<close>

theorem stop_resolves_by_timer:
  assumes f: "fresh st" and p: "port st = Some p"
  shows "\<exists>st1. stop hard st = Inr (st1, Promise (promises st))
       \<and> written st1 = written st @ [(p, encode (stopFrame hard))]
       \<and> timers st1 = timers st @ [(if hard = 0 then 1000 else 0, promises st, Resolved)]
       \<and> parserListeners st1 = parserListeners st
       \<and> promiseState st1 (promises st) = None
       \<and> promiseState (fireTimer (length (timers st)) st1) (promises st) = Some Resolved
       \<and> (\<forall>evs st2. run (emits evs) st1 = Inr st2 \<longrightarrow>
             promiseState st2 (promises st) = None
             \<and> timers st2 = timers st1
             \<and> promiseState (fireTimer (length (timers st)) st2) (promises st) = Some Resolved)"
proof -
  let ?h = "promises st"
  let ?t = "(if hard = 0 then 1000 else 0, ?h, Resolved)"
  let ?st1 = "st\<lparr> promises := Suc ?h, written := written st @ [(p, encode (stopFrame hard))],
               timers := timers st @ [?t] \<rparr>"
  note fr = fresh_promises [OF f]
  have c1: "stop hard st = Inr (?st1, Promise ?h)"
    using p by (simp add: stop_def writeToSerialPort_def Let_def encode_def)
  have l1: "?h \<notin> listenerHandles ?st1" using fr(1) by (simp add: listenerHandles_mem)
  have k1: "?h \<notin> callHandles ?st1" using fr(3) by (simp add: callHandles_def)
  have t1: "timers ?st1 = timers st @ [?t]" by simp
  have p1: "promiseState ?st1 ?h = None" using k1 by (simp add: promiseState_pending)
  have f1: "promiseState (fireTimer (length (timers st)) ?st1) ?h = Some Resolved"
    by (rule fireTimer_last [OF t1 k1])
  have later: "promiseState st2 ?h = None \<and> timers st2 = timers ?st1
      \<and> promiseState (fireTimer (length (timers st)) st2) ?h = Some Resolved"
    if r: "run (emits evs) ?st1 = Inr st2" for evs st2
  proof -
    from emits_untouched [OF l1 k1 r]
    have k2: "?h \<notin> callHandles st2" and t2: "timers st2 = timers ?st1" by simp_all
    from t2 have t2': "timers st2 = timers st @ [?t]" by simp
    show ?thesis
      using k2 t2 fireTimer_last [OF t2' k2] by (simp add: promiseState_pending)
  qed
  have "written ?st1 = written st @ [(p, encode (stopFrame hard))]"
    and "parserListeners ?st1 = parserListeners st" by simp_all
  with c1 t1 p1 f1 later show ?thesis by blast
qed

theorem stop_resolves_by_timer_witness:
  "(\<exists>st1. stop 0 ready = Inr (st1, Promise 1) \<and> timers st1 = [(1000, 1, Resolved)]
      \<and> promiseState st1 1 = None \<and> promiseState (fireTimer 0 st1) 1 = Some Resolved)
   \<and> (\<exists>st1. stop 1 ready = Inr (st1, Promise 1) \<and> timers st1 = [(0, 1, Resolved)]
      \<and> promiseState st1 1 = None \<and> promiseState (fireTimer 0 st1) 1 = Some Resolved)"
  using stop_resolves_by_timer [OF fresh_ready ready_simps(1), of 0]
    stop_resolves_by_timer [OF fresh_ready ready_simps(1), of 1]
  by (simp add: ready_simps) blast

subsection \<open>Init\<close>

text \<open>
  Claim C8 asks that \<open>init()\<close> on a controller that has a port reject and leave port
  and parser as they are. The code schedules the rejection and goes on: every \<open>init\<close>
  constructs a new port and a new parser. After a second \<open>init()\<close> the promise is
  rejected at the next timer tick, while the controller holds port 2 and parser 3
  instead of port 0 and parser 1, and the new parser carries the listeners of \<open>init\<close>.
\<close>

theorem init_reinitialises:
  "port (fst (init st)) = Some (objects st)
   \<and> parser (fst (init st)) = Some (Suc (objects st))
   \<and> objects (fst (init st)) = objects st + 2
   \<and> snd (init ready) = Promise 1
   \<and> port ready = Some 0 \<and> parser ready = Some 1
   \<and> port (fst (init ready)) = Some 2 \<and> parser (fst (init ready)) = Some 3
   \<and> timers (fst (init ready)) = [(0, 1, Rejected)]
   \<and> promiseState (fireTimer 0 (fst (init ready))) 1 = Some Rejected
   \<and> listenersOf 3 Ready (fst (init ready)) = [ResolveInit 1]"
  by (simp add: init_def Let_def ready_simps fireTimer_def settle_def promiseState_def
      listenersOf_def split: option.splits)

text \<open>
  A consequence: \<open>onTargetReached\<close> detaches itself from the parser the controller
  holds when the event fires. After a second \<open>init()\<close> a listener attached to the
  first parser stays there and runs again at every target-reached event of that parser.
\<close>

lemma stale_listener_after_reinit:
  "(case run [Init, Call (Forward 20 100), Init, Emit 1 TargetReached, Emit 1 TargetReached] initial of
      Inl e \<Rightarrow> False
    | Inr st \<Rightarrow>
        listenersOf 1 TargetReached st = [ForwardEvent, OnTargetReached 1]
        \<and> settleCalls st 1 = [(1, Resolved), (1, Resolved)])"
  by (simp add: init_def initial_def forward_def writeToSerialPort_def targetReachedPromise_def
      Let_def emit_def listenersOf_def settle_def removeListener_def settleCalls_def)

end
